theory Spec2Isabelle
  imports Main
begin

section \<open>The scrobble service of web-scrobbler\<close>

text \<open>
  The module \<^verbatim>\<open>core/background/services/scrobbleService.js\<close> keeps two module-level
  arrays of scrobbler objects, \<^verbatim>\<open>boundScrobblers\<close> and \<^verbatim>\<open>registeredScrobblers\<close>, and
  fans requests out to the bound ones.

  A JavaScript variable of object type holds a reference, and \<^verbatim>\<open>===\<close> on two objects
  compares the references. The arrays are therefore lists of references, the scrobbler
  objects live in a heap, and a method call \<^verbatim>\<open>s.getLabel()\<close> reads the object that the
  reference \<open>s\<close> points to. Strings are compared by value. The service never writes to
  a scrobbler object, so the heap is a parameter that no operation changes.
\<close>

subsection \<open>Scrobbler objects\<close>

type_synonym ref = nat

type_synonym song = string

text \<open>The object a scrobbler settles a request with; the service only asks it
  \<^verbatim>\<open>isAuthError()\<close>.\<close>

record result =
  isAuthError :: bool
  detail :: string

text \<open>The state a promise reaches once it is settled.\<close>

datatype ('a, 'b) promise = Fulfilled 'a | Rejected 'b

record scrobbler =
  getLabel :: string
  getStatusUrl :: string
  getSession :: "(string, string) promise"
  getAuthUrl :: "(string, string) promise"
  scrobbler_sendNowPlaying :: "song \<Rightarrow> (result, result) promise"
  scrobbler_scrobble :: "song \<Rightarrow> (result, result) promise"
  scrobbler_toggleLove :: "song \<Rightarrow> bool \<Rightarrow> (result, result) promise"

type_synonym heap = "ref \<Rightarrow> scrobbler"

subsection \<open>State of the service and of its collaborators\<close>

datatype console_entry = ConsoleLog string | ConsoleWarn string | ConsoleError string

text \<open>Calls that leave the module: requests to scrobblers, the \<^verbatim>\<open>notifications\<close>
  module and \<^verbatim>\<open>chrome.tabs\<close>.\<close>

datatype ext_call =
    CallGetSession ref
  | CallGetAuthUrl ref
  | CallSendNowPlaying ref song
  | CallScrobble ref song
  | CallToggleLove ref song bool
  | ShowAuthenticate string string
  | ShowSignInError string string
  | TabsCreate string

record service =
  boundScrobblers :: "ref list"
  registeredScrobblers :: "ref list"
  console :: "console_entry list"
  calls :: "ext_call list"

definition init_service :: service where
  "init_service =
     \<lparr>boundScrobblers = [], registeredScrobblers = [], console = [], calls = []\<rparr>"

definition console_log :: "string \<Rightarrow> service \<Rightarrow> service" where
  "console_log msg st = st\<lparr>console := console st @ [ConsoleLog msg]\<rparr>"

definition console_warn :: "string \<Rightarrow> service \<Rightarrow> service" where
  "console_warn msg st = st\<lparr>console := console st @ [ConsoleWarn msg]\<rparr>"

definition console_error :: "string \<Rightarrow> service \<Rightarrow> service" where
  "console_error msg st = st\<lparr>console := console st @ [ConsoleError msg]\<rparr>"

definition ext :: "ext_call \<Rightarrow> service \<Rightarrow> service" where
  "ext c st = st\<lparr>calls := calls st @ [c]\<rparr>"

text \<open>Decimal rendering of an array length inside a template literal.\<close>

fun string_of_nat :: "nat \<Rightarrow> string" where
  "string_of_nat n =
     (if n < 10 then [''0123456789'' ! n]
      else string_of_nat (n div 10) @ [''0123456789'' ! (n mod 10)])"

declare string_of_nat.simps [simp del]

subsection \<open>Membership, registering, binding and unbinding\<close>

text \<open>\<^verbatim>\<open>array.some(s => s.getLabel() === scrobbler.getLabel())\<close>\<close>

definition isScrobblerInArray :: "heap \<Rightarrow> ref \<Rightarrow> ref list \<Rightarrow> bool" where
  "isScrobblerInArray h scrobbler array =
     list_ex (\<lambda>s. getLabel (h s) = getLabel (h scrobbler)) array"

definition registerScrobbler :: "heap \<Rightarrow> ref \<Rightarrow> service \<Rightarrow> service" where
  "registerScrobbler h scrobbler st =
     (if \<not> isScrobblerInArray h scrobbler (registeredScrobblers st) then
        (console_log (''Register '' @ getLabel (h scrobbler) @ '' scrobbler'') st)
          \<lparr>registeredScrobblers := registeredScrobblers st @ [scrobbler]\<rparr>
      else st)"

definition bindScrobbler :: "heap \<Rightarrow> ref \<Rightarrow> service \<Rightarrow> service" where
  "bindScrobbler h scrobbler st =
     (if \<not> isScrobblerInArray h scrobbler (boundScrobblers st) then
        console_log (''Bind '' @ getLabel (h scrobbler) @ '' scrobbler'')
          (st\<lparr>boundScrobblers := boundScrobblers st @ [scrobbler]\<rparr>)
      else st)"

text \<open>The guard looks the label up; the filter keeps every element that is not the
  very object passed in (\<^verbatim>\<open>s !== scrobbler\<close>).\<close>

definition unbindScrobbler :: "heap \<Rightarrow> ref \<Rightarrow> service \<Rightarrow> service" where
  "unbindScrobbler h scrobbler st =
     (if isScrobblerInArray h scrobbler (boundScrobblers st) then
        console_log (''Unbind '' @ getLabel (h scrobbler) @ '' scrobbler'')
          (st\<lparr>boundScrobblers := filter (\<lambda>s. s \<noteq> scrobbler) (boundScrobblers st)\<rparr>)
      else console_error (getLabel (h scrobbler) @ '' is not bound'') st)"

definition getRegisteredScrobblers :: "service \<Rightarrow> ref list" where
  "getRegisteredScrobblers st = registeredScrobblers st"

definition getScrobblerByLabel :: "heap \<Rightarrow> string \<Rightarrow> service \<Rightarrow> ref option" where
  "getScrobblerByLabel h label st =
     find (\<lambda>scrobbler. getLabel (h scrobbler) = label) (registeredScrobblers st)"

subsection \<open>Promises and the event loop\<close>

text \<open>
  A request to a scrobbler returns a promise that settles in a later turn of the event
  loop. What the service chains onto it (\<^verbatim>\<open>.then\<close>, \<^verbatim>\<open>.catch\<close>) runs in that turn, to
  completion, on the state of the service as it is then, and gives the value the
  chained promise is fulfilled with. A chained promise is modelled by this reaction.
\<close>

type_synonym 'a reaction = "service \<Rightarrow> service \<times> 'a"

text \<open>\<^verbatim>\<open>p.catch(onRejected)\<close>: a fulfilled \<open>p\<close> passes its value on.\<close>

definition catch :: "('b \<Rightarrow> 'a reaction) \<Rightarrow> ('a, 'b) promise \<Rightarrow> 'a reaction" where
  "catch onRejected p st =
     (case p of Fulfilled v \<Rightarrow> (st, v) | Rejected r \<Rightarrow> onRejected r st)"

text \<open>\<^verbatim>\<open>p.then(onFulfilled).catch(onRejected)\<close> where neither handler throws.\<close>

definition then_catch ::
  "('a \<Rightarrow> 'c reaction) \<Rightarrow> ('b \<Rightarrow> 'c reaction) \<Rightarrow> ('a, 'b) promise \<Rightarrow> 'c reaction" where
  "then_catch onFulfilled onRejected p st =
     (case p of Fulfilled v \<Rightarrow> onFulfilled v st | Rejected r \<Rightarrow> onRejected r st)"

text \<open>
  Between two turns that belong to one call of the service, the host may call the
  exported \<^verbatim>\<open>bindScrobbler\<close> and \<^verbatim>\<open>unbindScrobbler\<close>, and the handlers of other calls
  in flight may run; these handlers change the state through the same two functions.
\<close>

datatype api_call = BindScrobbler ref | UnbindScrobbler ref

fun api :: "heap \<Rightarrow> api_call \<Rightarrow> service \<Rightarrow> service" where
  "api h (BindScrobbler s) st = bindScrobbler h s st"
| "api h (UnbindScrobbler s) st = unbindScrobbler h s st"

text \<open>An event is the settling of the \<open>i\<close>-th promise handed to \<^verbatim>\<open>Promise.all\<close>, or a
  call that is interleaved.\<close>

datatype event = Settle nat | Interleaved api_call

text \<open>
  \<^verbatim>\<open>Promise.all\<close> keeps one slot per input promise and is fulfilled, with the slots in
  input order, as soon as the last one is filled. A promise settles once: a second
  \<open>Settle\<close> of the same index, or an index that does not exist, changes nothing. When
  the events end before every slot is filled the aggregate is still pending
  (\<open>None\<close>).
\<close>

fun await_all ::
  "heap \<Rightarrow> 'a reaction list \<Rightarrow> 'a option list \<Rightarrow> event list \<Rightarrow> service
     \<Rightarrow> service \<times> 'a list option" where
  "await_all h ps slots evs st =
     (case those slots of
        Some vs \<Rightarrow> (st, Some vs)
      | None \<Rightarrow>
         (case evs of
            [] \<Rightarrow> (st, None)
          | Settle i # evs' \<Rightarrow>
              (if i < length ps \<and> i < length slots \<and> slots ! i = None then
                 (case (ps ! i) st of
                    (st', v) \<Rightarrow> await_all h ps (slots[i := Some v]) evs' st')
               else await_all h ps slots evs' st)
          | Interleaved c # evs' \<Rightarrow> await_all h ps slots evs' (api h c st)))"

declare await_all.simps [simp del]

definition Promise_all ::
  "heap \<Rightarrow> 'a reaction list \<Rightarrow> event list \<Rightarrow> service \<Rightarrow> service \<times> 'a list option" where
  "Promise_all h ps evs st = await_all h ps (replicate (length ps) None) evs st"

subsection \<open>Authentication\<close>

text \<open>\<^verbatim>\<open>authenticateScrobbler\<close> returns at once; the two handlers run when the promise
  of \<^verbatim>\<open>getAuthUrl()\<close> has settled. The function below is the call followed by that
  turn.\<close>

definition authenticateScrobbler :: "heap \<Rightarrow> ref \<Rightarrow> bool \<Rightarrow> service \<Rightarrow> service" where
  "authenticateScrobbler h scrobbler notify st =
     (let label = getLabel (h scrobbler) in
      fst (then_catch
        (\<lambda>authUrl st1.
           (let st2 = bindScrobbler h scrobbler st1 in
            if notify then ext (ShowAuthenticate label authUrl) st2
            else ext (TabsCreate authUrl) st2, ()))
        (\<lambda>_ st1.
           (let st2 = console_log (''Unable to get auth URL for '' @ label) st1;
                statusUrl = getStatusUrl (h scrobbler)
            in ext (ShowSignInError label statusUrl) st2, ()))
        (getAuthUrl (h scrobbler))
        (ext (CallGetAuthUrl scrobbler) st)))"

subsection \<open>Registering a batch\<close>

text \<open>The callback of \<^verbatim>\<open>unboundScrobblers.map\<close> runs for each element in order, in the
  turn of the call: it registers the scrobbler and asks for its session.\<close>

fun registerScrobblers_map :: "heap \<Rightarrow> ref list \<Rightarrow> service \<Rightarrow> service \<times> unit reaction list" where
  "registerScrobblers_map h [] st = (st, [])"
| "registerScrobblers_map h (scrobbler # rest) st =
     (let st1 = ext (CallGetSession scrobbler) (registerScrobbler h scrobbler st);
          p = then_catch
                (\<lambda>_ s. (bindScrobbler h scrobbler s, ()))
                (\<lambda>_ s. (console_warn (''Unable to bind '' @ getLabel (h scrobbler)) s, ()))
                (getSession (h scrobbler))
      in case registerScrobblers_map h rest st1 of (st2, ps) \<Rightarrow> (st2, p # ps))"

text \<open>\<^verbatim>\<open>Promise.all(promises).then(() => boundScrobblers)\<close>\<close>

definition registerScrobblers ::
  "heap \<Rightarrow> ref list \<Rightarrow> event list \<Rightarrow> service \<Rightarrow> service \<times> ref list option" where
  "registerScrobblers h unboundScrobblers evs st =
     (case registerScrobblers_map h unboundScrobblers st of
        (st1, promises) \<Rightarrow>
          (case Promise_all h promises evs st1 of
             (st2, r) \<Rightarrow> (st2, map_option (\<lambda>_. boundScrobblers st2) r)))"

subsection \<open>Broadcasts\<close>

text \<open>The handler that the three broadcasts pass to \<^verbatim>\<open>.catch\<close>.\<close>

definition forward_result :: "heap \<Rightarrow> ref \<Rightarrow> result \<Rightarrow> result reaction" where
  "forward_result h scrobbler result st =
     (if isAuthError result then unbindScrobbler h scrobbler st else st, result)"

text \<open>\<^verbatim>\<open>boundScrobblers.map\<close> runs in the turn of the call, on the array as it is then:
  every element is sent the request before any promise settles.\<close>

definition sendNowPlaying ::
  "heap \<Rightarrow> song \<Rightarrow> event list \<Rightarrow> service \<Rightarrow> service \<times> result list option" where
  \<open>sendNowPlaying h song evs st =
     (let st1 = console_log
            (''Send "now playing" request: '' @ string_of_nat (length (boundScrobblers st))) st;
          targets = boundScrobblers st1;
          st2 = st1\<lparr>calls := calls st1 @ map (\<lambda>scrobbler. CallSendNowPlaying scrobbler song) targets\<rparr>
      in Promise_all h
           (map (\<lambda>scrobbler.
              catch (forward_result h scrobbler) (scrobbler_sendNowPlaying (h scrobbler) song))
              targets)
           evs st2)\<close>

definition scrobble ::
  "heap \<Rightarrow> song \<Rightarrow> event list \<Rightarrow> service \<Rightarrow> service \<times> result list option" where
  \<open>scrobble h song evs st =
     (let st1 = console_log
            (''Send "scrobble" request: '' @ string_of_nat (length (boundScrobblers st))) st;
          targets = boundScrobblers st1;
          st2 = st1\<lparr>calls := calls st1 @ map (\<lambda>scrobbler. CallScrobble scrobbler song) targets\<rparr>
      in Promise_all h
           (map (\<lambda>scrobbler.
              catch (forward_result h scrobbler) (scrobbler_scrobble (h scrobbler) song))
              targets)
           evs st2)\<close>

definition toggleLove ::
  "heap \<Rightarrow> song \<Rightarrow> bool \<Rightarrow> event list \<Rightarrow> service \<Rightarrow> service \<times> result list option" where
  "toggleLove h song flag evs st =
     (let targets = boundScrobblers st;
          st1 = st\<lparr>calls := calls st @ map (\<lambda>scrobbler. CallToggleLove scrobbler song flag) targets\<rparr>
      in Promise_all h
           (map (\<lambda>scrobbler.
              catch (forward_result h scrobbler) (scrobbler_toggleLove (h scrobbler) song flag))
              targets)
           evs st1)"

subsection \<open>Notions used to state the properties\<close>

text \<open>The value that \<^verbatim>\<open>p.catch(result => { ...; return result; })\<close> is fulfilled
  with: the value of \<open>p\<close>, or the reason \<open>p\<close> was rejected with.\<close>

definition forwarded :: "('a, 'a) promise \<Rightarrow> 'a" where
  "forwarded p = (case p of Fulfilled v \<Rightarrow> v | Rejected r \<Rightarrow> r)"

definition auth_rejected :: "(result, result) promise \<Rightarrow> bool" where
  "auth_rejected p = (case p of Fulfilled v \<Rightarrow> False | Rejected r \<Rightarrow> isAuthError r)"

definition is_error :: "console_entry \<Rightarrow> bool" where
  "is_error e = (case e of ConsoleError m \<Rightarrow> True | _ \<Rightarrow> False)"

definition labels :: "heap \<Rightarrow> ref list \<Rightarrow> string list" where
  "labels h array = map (\<lambda>s. getLabel (h s)) array"

text \<open>What the bound branch of \<^verbatim>\<open>unbindScrobbler(s)\<close> makes of a state \<open>st1\<close>: every
  occurrence of the object \<open>s\<close> is gone from the bound array, \<open>s\<close> is not bound any more,
  and the one line written is \<^verbatim>\<open>console.log\<close>, not \<^verbatim>\<open>console.error\<close>.\<close>

definition removed_by_unbind :: "heap \<Rightarrow> ref \<Rightarrow> service \<Rightarrow> service \<Rightarrow> bool" where
  "removed_by_unbind h s st1 st2 =
     (boundScrobblers st2 = filter (\<lambda>x. x \<noteq> s) (boundScrobblers st1) \<and>
      s \<notin> set (boundScrobblers st2) \<and>
      console st2 = console st1 @ [ConsoleLog (''Unbind '' @ getLabel (h s) @ '' scrobbler'')])"

fun is_settle :: "event \<Rightarrow> bool" where
  "is_settle (Settle i) = True"
| "is_settle (Interleaved c) = False"

text \<open>Every promise of a batch of \<open>n\<close> settles at some point of the schedule.\<close>

definition all_settle :: "nat \<Rightarrow> event list \<Rightarrow> bool" where
  "all_settle n evs = list_all (\<lambda>i. Settle i \<in> set evs) [0..<n]"

subsection \<open>Example scrobblers\<close>

text \<open>Five scrobbler objects. Objects 0 and 3 are two different objects with the same
  label. Object 1 has no session, cannot give an auth URL and rejects every request with
  an auth error; object 3 rejects every request with an error that is not an auth
  error.\<close>

definition result_ok :: result where
  "result_ok = \<lparr>isAuthError = False, detail = ''ok''\<rparr>"

definition error_auth :: result where
  "error_auth = \<lparr>isAuthError = True, detail = ''error-auth''\<rparr>"

definition error_other :: result where
  "error_other = \<lparr>isAuthError = False, detail = ''error-other''\<rparr>"

definition example_scrobbler ::
  "string \<Rightarrow> (string, string) promise \<Rightarrow> (result, result) promise \<Rightarrow> scrobbler" where
  "example_scrobbler label session outcome =
     \<lparr>getLabel = label,
      getStatusUrl = ''https://status.example/'' @ label,
      getSession = session,
      getAuthUrl = (case session of
                      Fulfilled _ \<Rightarrow> Fulfilled (''https://auth.example/'' @ label)
                    | Rejected r \<Rightarrow> Rejected r),
      scrobbler_sendNowPlaying = (\<lambda>song. outcome),
      scrobbler_scrobble = (\<lambda>song. outcome),
      scrobbler_toggleLove = (\<lambda>song flag. outcome)\<rparr>"

definition example_heap :: heap where
  "example_heap r =
     (if r = 0 then example_scrobbler ''LastFM'' (Fulfilled ''sk0'') (Fulfilled result_ok)
      else if r = 1 then example_scrobbler ''LibreFM'' (Rejected ''no session'') (Rejected error_auth)
      else if r = 2 then example_scrobbler ''ListenBrainz'' (Fulfilled ''sk2'') (Fulfilled result_ok)
      else if r = 3 then example_scrobbler ''LastFM'' (Fulfilled ''sk3'') (Rejected error_other)
      else example_scrobbler ''Maloja'' (Fulfilled ''sk4'') (Fulfilled result_ok))"

text \<open>The service after objects 0, 1 and 2 have been bound, in this order.\<close>

definition example_service :: service where
  "example_service =
     bindScrobbler example_heap 2
       (bindScrobbler example_heap 1 (bindScrobbler example_heap 0 init_service))"

section \<open>Promises: resolution, values and invariants\<close>

lemma those_eq_Some_iff: "those xs = Some vs \<longleftrightarrow> xs = map Some vs"
  by (induction xs arbitrary: vs) (auto split: option.splits)

lemma those_eq_None_iff: "those xs = None \<longleftrightarrow> None \<in> set xs"
  by (induction xs) (auto split: option.splits)

lemma await_all_done:
  "those slots = Some vs \<Longrightarrow> await_all h ps slots evs st = (st, Some vs)"
  by (subst await_all.simps) simp

lemma await_all_Nil:
  "those slots = None \<Longrightarrow> await_all h ps slots [] st = (st, None)"
  by (subst await_all.simps) simp

lemma await_all_fire:
  "those slots = None \<Longrightarrow> i < length ps \<and> i < length slots \<and> slots ! i = None \<Longrightarrow>
   await_all h ps slots (Settle i # evs) st =
     await_all h ps (slots[i := Some (snd ((ps ! i) st))]) evs (fst ((ps ! i) st))"
  by (subst await_all.simps) (simp split: prod.splits)

lemma await_all_skip:
  "those slots = None \<Longrightarrow> \<not> (i < length ps \<and> i < length slots \<and> slots ! i = None) \<Longrightarrow>
   await_all h ps slots (Settle i # evs) st = await_all h ps slots evs st"
  by (subst await_all.simps) (auto split: prod.splits)

lemma await_all_Interleaved:
  "those slots = None \<Longrightarrow>
   await_all h ps slots (Interleaved c # evs) st = await_all h ps slots evs (api h c st)"
  by (subst await_all.simps) simp

lemma await_all_invariant:
  assumes "await_all h ps slots evs st = (st', Some rs)"
    and "I slots st"
    and "\<And>i sl s. I sl s \<Longrightarrow> i < length ps \<Longrightarrow> i < length sl \<Longrightarrow> sl ! i = None \<Longrightarrow>
           I (sl[i := Some (snd ((ps ! i) s))]) (fst ((ps ! i) s))"
    and "\<And>c sl s. I sl s \<Longrightarrow> Interleaved c \<in> set evs \<Longrightarrow> I sl (api h c s)"
  shows "I (map Some rs) st'"
  using assms
proof (induction evs arbitrary: slots st)
  case Nil
  show ?case
  proof (cases "those slots")
    case None
    with Nil.prems(1) show ?thesis by (simp add: await_all_Nil)
  next
    case (Some vs)
    with Nil.prems(1) have eq: "st' = st" "rs = vs" by (simp_all add: await_all_done)
    from Some have sl: "slots = map Some vs" by (simp add: those_eq_Some_iff)
    from Nil.prems(2) show ?thesis unfolding eq sl .
  qed
next
  case (Cons e evs)
  show ?case
  proof (cases "those slots")
    case (Some vs)
    with Cons.prems(1) have eq: "st' = st" "rs = vs" by (simp_all add: await_all_done)
    from Some have sl: "slots = map Some vs" by (simp add: those_eq_Some_iff)
    from Cons.prems(2) show ?thesis unfolding eq sl .
  next
    case None
    have inter: "\<And>c sl s. I sl s \<Longrightarrow> Interleaved c \<in> set evs \<Longrightarrow> I sl (api h c s)"
    proof -
      fix c sl s
      assume a: "I sl s" and "Interleaved c \<in> set evs"
      then have "Interleaved c \<in> set (e # evs)" by simp
      from Cons.prems(4)[OF a this] show "I sl (api h c s)" .
    qed
    show ?thesis
    proof (cases e)
      case (Interleaved c)
      have run: "await_all h ps slots evs (api h c st) = (st', Some rs)"
        using Cons.prems(1) unfolding Interleaved await_all_Interleaved[OF None] .
      have "I slots (api h c st)"
        by (rule Cons.prems(4)[OF Cons.prems(2)]) (simp add: Interleaved)
      from Cons.IH[OF run this Cons.prems(3) inter] show ?thesis .
    next
      case (Settle i)
      show ?thesis
      proof (cases "i < length ps \<and> i < length slots \<and> slots ! i = None")
        case False
        have run: "await_all h ps slots evs st = (st', Some rs)"
          using Cons.prems(1) unfolding Settle await_all_skip[OF None False] .
        from Cons.IH[OF run Cons.prems(2) Cons.prems(3) inter] show ?thesis .
      next
        case True
        let ?slots = "slots[i := Some (snd ((ps ! i) st))]"
        have run: "await_all h ps ?slots evs (fst ((ps ! i) st)) = (st', Some rs)"
          using Cons.prems(1) unfolding Settle await_all_fire[OF None True] .
        have "I ?slots (fst ((ps ! i) st))"
          using True by (intro Cons.prems(3)[OF Cons.prems(2)]) blast+
        from Cons.IH[OF run this Cons.prems(3) inter] show ?thesis .
      qed
    qed
  qed
qed

lemma await_all_values:
  assumes run: "await_all h ps slots evs st = (st', Some rs)"
    and len: "length slots = length ps" "length vals = length ps"
    and val: "\<And>i s. i < length ps \<Longrightarrow> snd ((ps ! i) s) = vals ! i"
    and ini: "\<And>i. i < length ps \<Longrightarrow> slots ! i = None \<or> slots ! i = Some (vals ! i)"
  shows "rs = vals"
proof -
  let ?I = "\<lambda>sl (s::service). length sl = length ps \<and>
              (\<forall>i<length ps. sl ! i = None \<or> sl ! i = Some (vals ! i))"
  have "?I (map Some rs) st'"
  proof (rule await_all_invariant[where I = ?I, OF run])
    show "?I slots st" using len ini by simp
  next
    fix i sl s
    assume "?I sl s" "i < length ps" "i < length sl" "sl ! i = None"
    then show "?I (sl[i := Some (snd ((ps ! i) s))]) (fst ((ps ! i) s))"
      using val by (simp add: nth_list_update)
  next
    fix c sl s
    assume "?I sl s"
    then show "?I sl (api h c s)" by simp
  qed
  then show ?thesis using len by (auto simp: list_eq_iff_nth_eq)
qed

lemma await_all_resolves:
  assumes "length slots = length ps"
    and "\<And>i. i < length ps \<Longrightarrow> slots ! i = None \<Longrightarrow> Settle i \<in> set evs"
  shows "\<exists>st' rs. await_all h ps slots evs st = (st', Some rs)"
  using assms
proof (induction evs arbitrary: slots st)
  case Nil
  then have "None \<notin> set slots" by (auto simp: in_set_conv_nth)
  then obtain vs where "those slots = Some vs" by (cases "those slots") (auto simp: those_eq_None_iff)
  then show ?case by (simp add: await_all_done)
next
  case (Cons e evs)
  show ?case
  proof (cases "those slots")
    case (Some vs)
    then show ?thesis by (simp add: await_all_done)
  next
    case None
    show ?thesis
    proof (cases e)
      case (Interleaved c)
      have "\<exists>st' rs. await_all h ps slots evs (api h c st) = (st', Some rs)"
        using Cons.prems Interleaved by (intro Cons.IH) auto
      then show ?thesis using None Interleaved by (simp add: await_all_Interleaved)
    next
      case (Settle i)
      show ?thesis
      proof (cases "i < length ps \<and> i < length slots \<and> slots ! i = None")
        case False
        have "\<And>j. j < length ps \<Longrightarrow> slots ! j = None \<Longrightarrow> Settle j \<in> set evs"
        proof -
          fix j assume j: "j < length ps" "slots ! j = None"
          with False Cons.prems(1) have "j \<noteq> i" by auto
          with Cons.prems(2)[OF j] Settle show "Settle j \<in> set evs" by simp
        qed
        with Cons.prems(1) have "\<exists>st' rs. await_all h ps slots evs st = (st', Some rs)"
          by (intro Cons.IH) auto
        then show ?thesis unfolding Settle await_all_skip[OF None False] .
      next
        case True
        let ?slots = "slots[i := Some (snd ((ps ! i) st))]"
        have "\<exists>st' rs. await_all h ps ?slots evs (fst ((ps ! i) st)) = (st', Some rs)"
          using Cons.prems Settle True by (intro Cons.IH) (auto simp: nth_list_update split: if_splits)
        then show ?thesis unfolding Settle await_all_fire[OF None True] .
      qed
    qed
  qed
qed


lemma all_settle_iff: "all_settle n evs \<longleftrightarrow> (\<forall>i<n. Settle i \<in> set evs)"
  by (auto simp: all_settle_def list_all_iff)

lemma Promise_all_resolves:
  assumes "all_settle (length ps) evs"
    and "length vals = length ps"
    and "\<And>i s. i < length ps \<Longrightarrow> snd ((ps ! i) s) = vals ! i"
  shows "\<exists>st'. Promise_all h ps evs st = (st', Some vals)"
proof -
  obtain st' rs where run: "await_all h ps (replicate (length ps) None) evs st = (st', Some rs)"
    using await_all_resolves[of "replicate (length ps) None" ps evs h st] assms(1)
    by (auto simp: all_settle_iff)
  have "rs = vals"
    by (rule await_all_values[OF run _ assms(2) assms(3)]) simp_all
  with run show ?thesis by (simp add: Promise_all_def)
qed


lemma isScrobblerInArray_iff:
  "isScrobblerInArray h s xs \<longleftrightarrow> getLabel (h s) \<in> set (labels h xs)"
  unfolding isScrobblerInArray_def labels_def list_ex_iff set_map image_iff by metis

lemma isScrobblerInArray_member: "s \<in> set xs \<Longrightarrow> isScrobblerInArray h s xs"
  by (auto simp: isScrobblerInArray_def list_ex_iff)

lemma forward_result_snd: "snd (catch (forward_result h s) p st) = forwarded p"
  by (simp add: catch_def forward_result_def forwarded_def split: promise.splits)

lemma forward_result_fst:
  "fst (catch (forward_result h s) p st) = (if auth_rejected p then unbindScrobbler h s st else st)"
  by (simp add: catch_def forward_result_def auth_rejected_def split: promise.splits)

lemma unbindScrobbler_member:
  "s \<in> set (boundScrobblers st) \<Longrightarrow>
   unbindScrobbler h s st =
     console_log (''Unbind '' @ getLabel (h s) @ '' scrobbler'')
       (st\<lparr>boundScrobblers := filter (\<lambda>x. x \<noteq> s) (boundScrobblers st)\<rparr>)"
  by (simp add: unbindScrobbler_def isScrobblerInArray_member)

lemma Promise_all_broadcast_results:
  assumes "all_settle (length targets) evs"
  shows "\<exists>st'. Promise_all h (map (\<lambda>s. catch (forward_result h s) (m s)) targets) evs st =
           (st', Some (map (\<lambda>s. forwarded (m s)) targets))"
  by (rule Promise_all_resolves) (use assms in \<open>simp_all add: forward_result_snd\<close>)

lemma Promise_all_broadcast_isolated:
  assumes run: "Promise_all h (map (\<lambda>s. catch (forward_result h s) (m s)) targets) evs st = (st', Some rs)"
    and dist: "distinct targets"
    and bound: "boundScrobblers st = targets"
    and iso: "list_all is_settle evs"
  shows "boundScrobblers st' = filter (\<lambda>s. \<not> auth_rejected (m s)) targets \<and>
         filter is_error (console st') = filter is_error (console st)"
proof -
  let ?n = "length targets"
  let ?ps = "map (\<lambda>s. catch (forward_result h s) (m s)) targets"
  let ?settled = "\<lambda>sl::result option list. {targets ! j | j. j < ?n \<and> sl ! j \<noteq> None}"
  let ?I = "\<lambda>(sl::result option list) (s::service). length sl = ?n \<and>
      boundScrobblers s = filter (\<lambda>x. \<not> (auth_rejected (m x) \<and> x \<in> ?settled sl)) targets \<and>
      filter is_error (console s) = filter is_error (console st)"
  have run': "await_all h ?ps (replicate (length ?ps) None) evs st = (st', Some rs)"
    using run by (simp add: Promise_all_def)
  have "?I (map Some rs) st'"
  proof (rule await_all_invariant[where I = ?I, OF run'])
    show "?I (replicate (length ?ps) None) st"
      using bound by simp
  next
    fix c and sl :: "result option list" and s :: service
    assume "Interleaved c \<in> set evs"
    with iso have False by (auto simp: list_all_iff)
    then show "?I sl (api h c s)" ..
  next
    fix i and sl :: "result option list" and s :: service
    assume I: "?I sl s" and i: "i < length ?ps" "i < length sl" and none: "sl ! i = None"
    let ?t = "targets ! i"
    let ?sl' = "sl[i := Some (snd ((?ps ! i) s))]"
    from i have i': "i < ?n" by simp
    have t_in: "?t \<in> set targets" using i' by simp
    have fresh: "?t \<notin> ?settled sl"
    proof
      assume "?t \<in> ?settled sl"
      then obtain j where j: "j < ?n" "targets ! j = ?t" "sl ! j \<noteq> None" by auto
      with dist i' have "j = i" by (simp add: nth_eq_iff_index_eq)
      with j none show False by simp
    qed
    have settled': "?settled ?sl' = insert ?t (?settled sl)"
    proof -
      have "\<And>j. j < ?n \<Longrightarrow> (?sl' ! j \<noteq> None) = (j = i \<or> sl ! j \<noteq> None)"
      proof -
        fix j assume "j < ?n"
        show "(?sl' ! j \<noteq> None) = (j = i \<or> sl ! j \<noteq> None)"
          using i(2) by (cases "j = i") simp_all
      qed
      then have "?settled ?sl' = {targets ! j | j. j < ?n \<and> (j = i \<or> sl ! j \<noteq> None)}"
        by (intro Collect_cong) blast
      also have "\<dots> = insert ?t (?settled sl)" using i' by auto
      finally show ?thesis .
    qed
    have psi: "?ps ! i = catch (forward_result h ?t) (m ?t)" using i' by simp
    have len: "length ?sl' = ?n" using I by simp
    show "?I ?sl' (fst ((?ps ! i) s))"
    proof (cases "auth_rejected (m ?t)")
      case False
      then have st_eq: "fst ((?ps ! i) s) = s" by (simp add: psi forward_result_fst)
      have "filter (\<lambda>x. \<not> (auth_rejected (m x) \<and> x \<in> ?settled ?sl')) targets =
            filter (\<lambda>x. \<not> (auth_rejected (m x) \<and> x \<in> ?settled sl)) targets"
        unfolding settled' using False by (intro filter_cong refl) blast
      with I len show ?thesis unfolding st_eq by simp
    next
      case True
      from I fresh t_in have "?t \<in> set (boundScrobblers s)" by simp
      then have st_eq: "fst ((?ps ! i) s) =
          console_log (''Unbind '' @ getLabel (h ?t) @ '' scrobbler'')
            (s\<lparr>boundScrobblers := filter (\<lambda>x. x \<noteq> ?t) (boundScrobblers s)\<rparr>)"
        using True by (simp add: psi forward_result_fst unbindScrobbler_member)
      have "filter (\<lambda>x. x \<noteq> ?t) (boundScrobblers s) =
            filter (\<lambda>x. \<not> (auth_rejected (m x) \<and> x \<in> ?settled ?sl')) targets"
      proof -
        have "filter (\<lambda>x. x \<noteq> ?t) (boundScrobblers s) =
              filter (\<lambda>x. \<not> (auth_rejected (m x) \<and> x \<in> ?settled sl) \<and> x \<noteq> ?t) targets"
          using I by (simp add: conj_commute)
        also have "\<dots> = filter (\<lambda>x. \<not> (auth_rejected (m x) \<and> x \<in> ?settled ?sl')) targets"
          unfolding settled' using True by (intro filter_cong refl) blast
        finally show ?thesis .
      qed
      with I len show ?thesis unfolding st_eq
        by (simp add: console_log_def is_error_def)
    qed
  qed
  then have len0: "length (map Some rs) = ?n"
    and b: "boundScrobblers st' =
       filter (\<lambda>x. \<not> (auth_rejected (m x) \<and> x \<in> ?settled (map Some rs))) targets"
    and e: "filter is_error (console st') = filter is_error (console st)"
    by blast+
  from len0 have len: "length rs = ?n" by simp
  have "filter (\<lambda>x. \<not> (auth_rejected (m x) \<and> x \<in> ?settled (map Some rs))) targets =
        filter (\<lambda>s. \<not> auth_rejected (m s)) targets"
  proof (intro filter_cong refl)
    fix x assume "x \<in> set targets"
    then obtain j where "j < ?n" "targets ! j = x" by (auto simp: in_set_conv_nth)
    with len have "x \<in> ?settled (map Some rs)" by auto
    then show "(\<not> (auth_rejected (m x) \<and> x \<in> ?settled (map Some rs))) = (\<not> auth_rejected (m x))"
      by blast
  qed
  with b e show ?thesis by simp
qed


lemma await_all_frame:
  assumes run: "await_all h ps slots evs st = (st', Some rs)"
    and react: "\<And>i s. i < length ps \<Longrightarrow> f (fst ((ps ! i) s)) = f s"
    and inter: "\<And>c s. f (api h c s) = f s"
  shows "f st' = f st"
proof -
  let ?I = "\<lambda>(sl::'a option list) (s::service). f s = f st"
  show ?thesis
  proof (rule await_all_invariant[where I = ?I, OF run])
    show "f st = f st" ..
  next
    fix i and sl :: "'a option list" and s :: service
    assume "f s = f st" "i < length ps"
    then show "f (fst ((ps ! i) s)) = f st" by (simp add: react)
  next
    fix c and s :: service
    assume "f s = f st"
    then show "f (api h c s) = f st" by (simp add: inter)
  qed
qed

lemma api_calls: "calls (api h c s) = calls s"
  by (cases c)
    (simp_all add: bindScrobbler_def unbindScrobbler_def console_log_def console_error_def)

lemma api_registered: "registeredScrobblers (api h c s) = registeredScrobblers s"
  by (cases c)
    (simp_all add: bindScrobbler_def unbindScrobbler_def console_log_def console_error_def)

lemma forward_result_calls: "calls (fst (catch (forward_result h s) p st)) = calls st"
  by (simp add: forward_result_fst unbindScrobbler_def console_log_def console_error_def)

lemma Promise_all_broadcast_calls:
  assumes "Promise_all h (map (\<lambda>s. catch (forward_result h s) (m s)) targets) evs st = (st', Some rs)"
  shows "calls st' = calls st"
  using assms unfolding Promise_all_def
  by (rule await_all_frame) (simp_all add: forward_result_calls api_calls)

text \<open>The three broadcasts have one shape.\<close>

lemma sendNowPlaying_unfold:
  \<open>sendNowPlaying h song evs st =
     Promise_all h
       (map (\<lambda>s. catch (forward_result h s) (scrobbler_sendNowPlaying (h s) song))
          (boundScrobblers st)) evs
       (st\<lparr>console := console st @
               [ConsoleLog (''Send "now playing" request: '' @
                  string_of_nat (length (boundScrobblers st)))],
           calls := calls st @ map (\<lambda>s. CallSendNowPlaying s song) (boundScrobblers st)\<rparr>)\<close>
  by (simp add: sendNowPlaying_def console_log_def Let_def)

lemma scrobble_unfold:
  \<open>scrobble h song evs st =
     Promise_all h
       (map (\<lambda>s. catch (forward_result h s) (scrobbler_scrobble (h s) song))
          (boundScrobblers st)) evs
       (st\<lparr>console := console st @
               [ConsoleLog (''Send "scrobble" request: '' @
                  string_of_nat (length (boundScrobblers st)))],
           calls := calls st @ map (\<lambda>s. CallScrobble s song) (boundScrobblers st)\<rparr>)\<close>
  by (simp add: scrobble_def console_log_def Let_def)

lemma toggleLove_unfold:
  "toggleLove h song flag evs st =
     Promise_all h
       (map (\<lambda>s. catch (forward_result h s) (scrobbler_toggleLove (h s) song flag))
          (boundScrobblers st)) evs
       (st\<lparr>calls := calls st @ map (\<lambda>s. CallToggleLove s song flag) (boundScrobblers st)\<rparr>)"
  by (simp add: toggleLove_def Let_def)

lemma Promise_all_broadcast_resolves:
  assumes "all_settle (length targets) evs"
  shows "\<exists>st'. Promise_all h (map (\<lambda>s. catch (forward_result h s) (m s)) targets) evs st =
           (st', Some (map (\<lambda>s. forwarded (m s)) targets)) \<and> calls st' = calls st"
proof -
  from Promise_all_broadcast_results[OF assms] obtain st' where
    run: "Promise_all h (map (\<lambda>s. catch (forward_result h s) (m s)) targets) evs st =
           (st', Some (map (\<lambda>s. forwarded (m s)) targets))" ..
  from Promise_all_broadcast_calls[OF run] run show ?thesis by blast
qed

lemma sendNowPlaying_resolves:
  assumes "all_settle (length (boundScrobblers st)) evs"
  shows "\<exists>st'. sendNowPlaying h song evs st =
           (st', Some (map (\<lambda>s. forwarded (scrobbler_sendNowPlaying (h s) song)) (boundScrobblers st))) \<and>
         calls st' = calls st @ map (\<lambda>s. CallSendNowPlaying s song) (boundScrobblers st)"
proof -
  let ?m = "\<lambda>s. scrobbler_sendNowPlaying (h s) song"
  let ?st0 = \<open>st\<lparr>console := console st @
               [ConsoleLog (''Send "now playing" request: '' @
                  string_of_nat (length (boundScrobblers st)))],
           calls := calls st @ map (\<lambda>s. CallSendNowPlaying s song) (boundScrobblers st)\<rparr>\<close>
  from Promise_all_broadcast_resolves[OF assms, of h ?m ?st0] obtain st' where
    run: "Promise_all h (map (\<lambda>s. catch (forward_result h s) (?m s)) (boundScrobblers st)) evs ?st0 =
            (st', Some (map (\<lambda>s. forwarded (?m s)) (boundScrobblers st)))"
    and c: "calls st' = calls ?st0" by blast
  have "sendNowPlaying h song evs st =
          (st', Some (map (\<lambda>s. forwarded (?m s)) (boundScrobblers st)))"
    unfolding sendNowPlaying_unfold by (rule run)
  moreover have "calls st' = calls st @ map (\<lambda>s. CallSendNowPlaying s song) (boundScrobblers st)"
    unfolding c by simp
  ultimately show ?thesis by blast
qed

lemma scrobble_resolves:
  assumes "all_settle (length (boundScrobblers st)) evs"
  shows "\<exists>st'. scrobble h song evs st =
           (st', Some (map (\<lambda>s. forwarded (scrobbler_scrobble (h s) song)) (boundScrobblers st))) \<and>
         calls st' = calls st @ map (\<lambda>s. CallScrobble s song) (boundScrobblers st)"
proof -
  let ?m = "\<lambda>s. scrobbler_scrobble (h s) song"
  let ?st0 = \<open>st\<lparr>console := console st @
               [ConsoleLog (''Send "scrobble" request: '' @
                  string_of_nat (length (boundScrobblers st)))],
           calls := calls st @ map (\<lambda>s. CallScrobble s song) (boundScrobblers st)\<rparr>\<close>
  from Promise_all_broadcast_resolves[OF assms, of h ?m ?st0] obtain st' where
    run: "Promise_all h (map (\<lambda>s. catch (forward_result h s) (?m s)) (boundScrobblers st)) evs ?st0 =
            (st', Some (map (\<lambda>s. forwarded (?m s)) (boundScrobblers st)))"
    and c: "calls st' = calls ?st0" by blast
  have "scrobble h song evs st =
          (st', Some (map (\<lambda>s. forwarded (?m s)) (boundScrobblers st)))"
    unfolding scrobble_unfold by (rule run)
  moreover have "calls st' = calls st @ map (\<lambda>s. CallScrobble s song) (boundScrobblers st)"
    unfolding c by simp
  ultimately show ?thesis by blast
qed

lemma toggleLove_resolves:
  assumes "all_settle (length (boundScrobblers st)) evs"
  shows "\<exists>st'. toggleLove h song flag evs st =
           (st', Some (map (\<lambda>s. forwarded (scrobbler_toggleLove (h s) song flag)) (boundScrobblers st))) \<and>
         calls st' = calls st @ map (\<lambda>s. CallToggleLove s song flag) (boundScrobblers st)"
proof -
  let ?m = "\<lambda>s. scrobbler_toggleLove (h s) song flag"
  let ?st0 = \<open>st\<lparr>calls := calls st @ map (\<lambda>s. CallToggleLove s song flag) (boundScrobblers st)\<rparr>\<close>
  from Promise_all_broadcast_resolves[OF assms, of h ?m ?st0] obtain st' where
    run: "Promise_all h (map (\<lambda>s. catch (forward_result h s) (?m s)) (boundScrobblers st)) evs ?st0 =
            (st', Some (map (\<lambda>s. forwarded (?m s)) (boundScrobblers st)))"
    and c: "calls st' = calls ?st0" by blast
  have "toggleLove h song flag evs st =
          (st', Some (map (\<lambda>s. forwarded (?m s)) (boundScrobblers st)))"
    unfolding toggleLove_unfold by (rule run)
  moreover have "calls st' = calls st @ map (\<lambda>s. CallToggleLove s song flag) (boundScrobblers st)"
    unfolding c by simp
  ultimately show ?thesis by blast
qed

lemma sendNowPlaying_isolated:
  assumes run: "sendNowPlaying h song evs st = (st', Some rs)"
    and dist: "distinct (boundScrobblers st)" and iso: "list_all is_settle evs"
  shows "boundScrobblers st' =
           filter (\<lambda>s. \<not> auth_rejected (scrobbler_sendNowPlaying (h s) song)) (boundScrobblers st) \<and>
         filter is_error (console st') = filter is_error (console st)"
proof -
  let ?m = "\<lambda>s. scrobbler_sendNowPlaying (h s) song"
  let ?st0 = \<open>st\<lparr>console := console st @
               [ConsoleLog (''Send "now playing" request: '' @
                  string_of_nat (length (boundScrobblers st)))],
           calls := calls st @ map (\<lambda>s. CallSendNowPlaying s song) (boundScrobblers st)\<rparr>\<close>
  have run0: "Promise_all h (map (\<lambda>s. catch (forward_result h s) (?m s)) (boundScrobblers st)) evs ?st0 =
            (st', Some rs)"
    using run unfolding sendNowPlaying_unfold .
  have b0: "boundScrobblers ?st0 = boundScrobblers st" by simp
  have e0: "filter is_error (console ?st0) = filter is_error (console st)"
    by (simp add: is_error_def)
  from Promise_all_broadcast_isolated[OF run0 dist b0 iso] show ?thesis
    unfolding e0 .
qed

lemma scrobble_isolated:
  assumes run: "scrobble h song evs st = (st', Some rs)"
    and dist: "distinct (boundScrobblers st)" and iso: "list_all is_settle evs"
  shows "boundScrobblers st' =
           filter (\<lambda>s. \<not> auth_rejected (scrobbler_scrobble (h s) song)) (boundScrobblers st) \<and>
         filter is_error (console st') = filter is_error (console st)"
proof -
  let ?m = "\<lambda>s. scrobbler_scrobble (h s) song"
  let ?st0 = \<open>st\<lparr>console := console st @
               [ConsoleLog (''Send "scrobble" request: '' @
                  string_of_nat (length (boundScrobblers st)))],
           calls := calls st @ map (\<lambda>s. CallScrobble s song) (boundScrobblers st)\<rparr>\<close>
  have run0: "Promise_all h (map (\<lambda>s. catch (forward_result h s) (?m s)) (boundScrobblers st)) evs ?st0 =
            (st', Some rs)"
    using run unfolding scrobble_unfold .
  have b0: "boundScrobblers ?st0 = boundScrobblers st" by simp
  have e0: "filter is_error (console ?st0) = filter is_error (console st)"
    by (simp add: is_error_def)
  from Promise_all_broadcast_isolated[OF run0 dist b0 iso] show ?thesis
    unfolding e0 .
qed

lemma toggleLove_isolated:
  assumes run: "toggleLove h song flag evs st = (st', Some rs)"
    and dist: "distinct (boundScrobblers st)" and iso: "list_all is_settle evs"
  shows "boundScrobblers st' =
           filter (\<lambda>s. \<not> auth_rejected (scrobbler_toggleLove (h s) song flag)) (boundScrobblers st) \<and>
         filter is_error (console st') = filter is_error (console st)"
proof -
  let ?m = "\<lambda>s. scrobbler_toggleLove (h s) song flag"
  let ?st0 = \<open>st\<lparr>calls := calls st @ map (\<lambda>s. CallToggleLove s song flag) (boundScrobblers st)\<rparr>\<close>
  have run0: "Promise_all h (map (\<lambda>s. catch (forward_result h s) (?m s)) (boundScrobblers st)) evs ?st0 =
            (st', Some rs)"
    using run unfolding toggleLove_unfold .
  have b0: "boundScrobblers ?st0 = boundScrobblers st" by simp
  have e0: "filter is_error (console ?st0) = filter is_error (console st)"
    by (simp add: is_error_def)
  from Promise_all_broadcast_isolated[OF run0 dist b0 iso] show ?thesis
    unfolding e0 .
qed

text \<open>The turn in which the \<open>i\<close>-th promise settles, after any events that do not
  settle it.\<close>

lemma await_all_Nil_fst: "fst (await_all h ps slots [] st) = st"
  by (cases "those slots") (simp_all add: await_all_Nil await_all_done)

lemma await_all_then_settle:
  assumes len: "length slots = length ps" and i: "i < length ps"
    and empty: "slots ! i = None" and fresh: "Settle i \<notin> set pre"
  shows "fst (await_all h ps slots (pre @ [Settle i]) st) =
         fst ((ps ! i) (fst (await_all h ps slots pre st)))"
  using len empty fresh
proof (induction pre arbitrary: slots st)
  case Nil
  from Nil.prems(1,2) i have pend: "those slots = None"
    by (metis nth_mem those_eq_None_iff)
  have fire: "i < length ps \<and> i < length slots \<and> slots ! i = None"
    using i Nil.prems(1,2) by simp
  show ?case
    by (simp add: await_all_fire[OF pend fire] await_all_Nil_fst)
next
  case (Cons e pre)
  from Cons.prems(1,2) i have pend: "those slots = None"
    by (metis nth_mem those_eq_None_iff)
  from Cons.prems(3) have fresh': "Settle i \<notin> set pre" and ne: "e \<noteq> Settle i" by auto
  show ?case
  proof (cases e)
    case (Interleaved c)
    show ?thesis
      unfolding Interleaved append_Cons await_all_Interleaved[OF pend]
      by (rule Cons.IH[OF Cons.prems(1,2) fresh'])
  next
    case (Settle j)
    with ne have ji: "j \<noteq> i" by simp
    show ?thesis
    proof (cases "j < length ps \<and> j < length slots \<and> slots ! j = None")
      case False
      show ?thesis
        unfolding Settle append_Cons await_all_skip[OF pend False]
        by (rule Cons.IH[OF Cons.prems(1,2) fresh'])
    next
      case True
      let ?slots = "slots[j := Some (snd ((ps ! j) st))]"
      have l: "length ?slots = length ps" using Cons.prems(1) by simp
      have e: "?slots ! i = None" using Cons.prems(2) ji by simp
      show ?thesis
        unfolding Settle append_Cons await_all_fire[OF pend True]
        by (rule Cons.IH[OF l e fresh'])
    qed
  qed
qed

lemma Promise_all_broadcast_unbind:
  assumes i: "i < length targets" and fresh: "Settle i \<notin> set pre"
    and auth: "auth_rejected (m (targets ! i))"
    and still: "targets ! i \<in> set (boundScrobblers
        (fst (Promise_all h (map (\<lambda>s. catch (forward_result h s) (m s)) targets) pre st)))"
  shows "removed_by_unbind h (targets ! i)
           (fst (Promise_all h (map (\<lambda>s. catch (forward_result h s) (m s)) targets) pre st))
           (fst (Promise_all h (map (\<lambda>s. catch (forward_result h s) (m s)) targets)
                  (pre @ [Settle i]) st))"
proof -
  let ?ps = "map (\<lambda>s. catch (forward_result h s) (m s)) targets"
  let ?st1 = "fst (Promise_all h ?ps pre st)"
  have "fst (Promise_all h ?ps (pre @ [Settle i]) st) = fst ((?ps ! i) ?st1)"
    unfolding Promise_all_def
    by (rule await_all_then_settle) (use i fresh in simp_all)
  also have "\<dots> = unbindScrobbler h (targets ! i) ?st1"
    using i auth by (simp add: forward_result_fst)
  also have "\<dots> = console_log (''Unbind '' @ getLabel (h (targets ! i)) @ '' scrobbler'')
       (?st1\<lparr>boundScrobblers := filter (\<lambda>x. x \<noteq> targets ! i) (boundScrobblers ?st1)\<rparr>)"
    by (rule unbindScrobbler_member[OF still])
  finally show ?thesis
    by (simp add: removed_by_unbind_def console_log_def)
qed

section \<open>Properties of the service\<close>

lemmas example_defs =
  example_service_def example_heap_def example_scrobbler_def init_service_def
  result_ok_def error_auth_def error_other_def
  bindScrobbler_def unbindScrobbler_def isScrobblerInArray_def
  console_log_def console_error_def

lemmas run_defs =
  sendNowPlaying_def scrobble_def toggleLove_def Promise_all_def await_all.simps
  catch_def forward_result_def Let_def

lemma example_service_bound: "boundScrobblers example_service = [0, 1, 2]"
  by (simp add: example_defs)

subsection \<open>An auth error unbinds the scrobbler that caused it\<close>

text \<open>
  Claim C1. Three scrobblers \<open>A\<close>, \<open>B\<close>, \<open>C\<close> are bound, \<open>B\<close> rejects the scrobble
  request with an error whose \<^verbatim>\<open>isAuthError()\<close> is true, \<open>A\<close> and \<open>C\<close> fulfil it. In
  whatever order the three promises settle, \<^verbatim>\<open>scrobble(song)\<close> is fulfilled, the
  array it is fulfilled with has three entries, the one of \<open>B\<close> is the very error \<open>e\<close>
  that \<open>B\<close> rejected with, and afterwards exactly \<open>A\<close> and \<open>C\<close> are bound.
\<close>

theorem scrobble_auth_error_unbinds_that_provider:
  assumes bound: "boundScrobblers st = [A, B, C]"
    and three: "distinct [A, B, C]"
    and okA: "scrobbler_scrobble (h A) song = Fulfilled ra"
    and errB: "scrobbler_scrobble (h B) song = Rejected e"
    and auth: "isAuthError e"
    and okC: "scrobbler_scrobble (h C) song = Fulfilled rc"
    and settle: "all_settle 3 evs"
    and alone: "list_all is_settle evs"
  shows "\<exists>st'. scrobble h song evs st = (st', Some [ra, e, rc]) \<and>
               boundScrobblers st' = [A, C]"
proof -
  from settle bound have "all_settle (length (boundScrobblers st)) evs"
    by (simp add: numeral_3_eq_3)
  from scrobble_resolves[OF this, of h song] obtain st' where
    run: "scrobble h song evs st =
      (st', Some (map (\<lambda>s. forwarded (scrobbler_scrobble (h s) song)) (boundScrobblers st)))"
    by blast
  have rs: "map (\<lambda>s. forwarded (scrobbler_scrobble (h s) song)) (boundScrobblers st) = [ra, e, rc]"
    by (simp add: bound okA errB okC forwarded_def)
  from three bound have "distinct (boundScrobblers st)" by simp
  from scrobble_isolated[OF run this alone]
  have "boundScrobblers st' =
      filter (\<lambda>s. \<not> auth_rejected (scrobbler_scrobble (h s) song)) [A, B, C]"
    by (simp add: bound)
  then have "boundScrobblers st' = [A, C]"
    by (simp add: okA errB okC auth auth_rejected_def)
  with run rs show ?thesis by simp
qed

theorem scrobble_auth_error_unbinds_that_provider_witness:
  "\<exists>st'. scrobble example_heap ''song'' [Settle 2, Settle 0, Settle 1] example_service =
           (st', Some [result_ok, error_auth, result_ok]) \<and>
         boundScrobblers st' = [0, 2]"
proof -
  have "distinct [0::nat, 1, 2]"
    and "scrobbler_scrobble (example_heap 0) ''song'' = Fulfilled result_ok"
    and "scrobbler_scrobble (example_heap 1) ''song'' = Rejected error_auth"
    and "isAuthError error_auth"
    and "scrobbler_scrobble (example_heap 2) ''song'' = Fulfilled result_ok"
    and "all_settle 3 [Settle 2, Settle 0, Settle 1]"
    and "list_all is_settle [Settle 2, Settle 0, Settle 1]"
    by (simp_all add: example_defs all_settle_def upt_rec)
  with example_service_bound show ?thesis
    by (rule scrobble_auth_error_unbinds_that_provider[where A = 0 and B = 1 and C = 2])
qed

subsection \<open>Any other error leaves the bound scrobblers alone\<close>

text \<open>
  Claim C7. One scrobbler is bound and rejects the now-playing request with an error
  whose \<^verbatim>\<open>isAuthError()\<close> is false. Then \<^verbatim>\<open>sendNowPlaying(song)\<close> is fulfilled with
  the one-element array holding this error, and the scrobbler is still bound.
\<close>

theorem sendNowPlaying_other_error_keeps_provider:
  assumes bound: "boundScrobblers st = [p]"
    and err: "scrobbler_sendNowPlaying (h p) song = Rejected e"
    and other: "\<not> isAuthError e"
    and settle: "all_settle 1 evs"
    and alone: "list_all is_settle evs"
  shows "\<exists>st'. sendNowPlaying h song evs st = (st', Some [e]) \<and> boundScrobblers st' = [p]"
proof -
  from settle bound have "all_settle (length (boundScrobblers st)) evs" by simp
  from sendNowPlaying_resolves[OF this, of h song] obtain st' where
    run: "sendNowPlaying h song evs st =
      (st', Some (map (\<lambda>s. forwarded (scrobbler_sendNowPlaying (h s) song)) (boundScrobblers st)))"
    by blast
  have rs: "map (\<lambda>s. forwarded (scrobbler_sendNowPlaying (h s) song)) (boundScrobblers st) = [e]"
    by (simp add: bound err forwarded_def)
  from bound have "distinct (boundScrobblers st)" by simp
  from sendNowPlaying_isolated[OF run this alone]
  have "boundScrobblers st' = [p]"
    by (simp add: bound err other auth_rejected_def)
  with run rs show ?thesis by simp
qed

theorem sendNowPlaying_other_error_keeps_provider_witness:
  "\<exists>st'. sendNowPlaying example_heap ''song'' [Settle 0]
            (bindScrobbler example_heap 3 init_service) =
           (st', Some [error_other]) \<and>
         boundScrobblers st' = [3]"
proof -
  have "boundScrobblers (bindScrobbler example_heap 3 init_service) = [3]"
    and "scrobbler_sendNowPlaying (example_heap 3) ''song'' = Rejected error_other"
    and "\<not> isAuthError error_other"
    and "all_settle 1 [Settle 0]"
    and "list_all is_settle [Settle 0]"
    by (simp_all add: example_defs all_settle_def)
  then show ?thesis
    by (rule sendNowPlaying_other_error_keeps_provider)
qed

subsection \<open>A broadcast addresses the scrobblers bound when it is called\<close>

text \<open>
  Claim C4. Each of \<^verbatim>\<open>sendNowPlaying\<close>, \<^verbatim>\<open>scrobble\<close> and \<^verbatim>\<open>toggleLove\<close> sends its
  request to every scrobbler that is bound when it is called, and the array it is
  fulfilled with holds one entry for each of them, its own. This holds for every
  schedule in which the promises settle, whatever is unbound or bound in between, by
  a handler of this broadcast or by an interleaved call.
\<close>

theorem broadcast_addresses_call_time_bound_set:
  assumes settle: "all_settle (length (boundScrobblers st)) evs"
  shows "(\<exists>st' rs. sendNowPlaying h song evs st = (st', Some rs) \<and>
            length rs = length (boundScrobblers st) \<and>
            rs = map (\<lambda>s. forwarded (scrobbler_sendNowPlaying (h s) song)) (boundScrobblers st) \<and>
            calls st' = calls st @ map (\<lambda>s. CallSendNowPlaying s song) (boundScrobblers st)) \<and>
         (\<exists>st' rs. scrobble h song evs st = (st', Some rs) \<and>
            length rs = length (boundScrobblers st) \<and>
            rs = map (\<lambda>s. forwarded (scrobbler_scrobble (h s) song)) (boundScrobblers st) \<and>
            calls st' = calls st @ map (\<lambda>s. CallScrobble s song) (boundScrobblers st)) \<and>
         (\<exists>st' rs. toggleLove h song flag evs st = (st', Some rs) \<and>
            length rs = length (boundScrobblers st) \<and>
            rs = map (\<lambda>s. forwarded (scrobbler_toggleLove (h s) song flag)) (boundScrobblers st) \<and>
            calls st' = calls st @ map (\<lambda>s. CallToggleLove s song flag) (boundScrobblers st))"
proof (intro conjI)
  from sendNowPlaying_resolves[OF settle, of h song]
  show "\<exists>st' rs. sendNowPlaying h song evs st = (st', Some rs) \<and>
            length rs = length (boundScrobblers st) \<and>
            rs = map (\<lambda>s. forwarded (scrobbler_sendNowPlaying (h s) song)) (boundScrobblers st) \<and>
            calls st' = calls st @ map (\<lambda>s. CallSendNowPlaying s song) (boundScrobblers st)"
    by auto
next
  from scrobble_resolves[OF settle, of h song]
  show "\<exists>st' rs. scrobble h song evs st = (st', Some rs) \<and>
            length rs = length (boundScrobblers st) \<and>
            rs = map (\<lambda>s. forwarded (scrobbler_scrobble (h s) song)) (boundScrobblers st) \<and>
            calls st' = calls st @ map (\<lambda>s. CallScrobble s song) (boundScrobblers st)"
    by auto
next
  from toggleLove_resolves[OF settle, of h song flag]
  show "\<exists>st' rs. toggleLove h song flag evs st = (st', Some rs) \<and>
            length rs = length (boundScrobblers st) \<and>
            rs = map (\<lambda>s. forwarded (scrobbler_toggleLove (h s) song flag)) (boundScrobblers st) \<and>
            calls st' = calls st @ map (\<lambda>s. CallToggleLove s song flag) (boundScrobblers st)"
    by auto
qed

theorem broadcast_addresses_call_time_bound_set_witness:
  "\<exists>st' rs. scrobble example_heap ''song''
              [Settle 1, Interleaved (UnbindScrobbler 2), Settle 0, Settle 2] example_service =
            (st', Some rs) \<and>
          length rs = 3 \<and>
          rs = [result_ok, error_auth, result_ok] \<and>
          calls st' = [CallScrobble 0 ''song'', CallScrobble 1 ''song'', CallScrobble 2 ''song'']"
proof -
  have "all_settle (length (boundScrobblers example_service))
          [Settle 1, Interleaved (UnbindScrobbler 2), Settle 0, Settle 2]"
    by (simp add: example_service_bound all_settle_def upt_rec)
  from broadcast_addresses_call_time_bound_set[OF this, of example_heap "''song''" True]
  have "\<exists>st' rs. scrobble example_heap ''song''
              [Settle 1, Interleaved (UnbindScrobbler 2), Settle 0, Settle 2] example_service =
            (st', Some rs) \<and>
          length rs = length (boundScrobblers example_service) \<and>
          rs = map (\<lambda>s. forwarded (scrobbler_scrobble (example_heap s) ''song''))
                 (boundScrobblers example_service) \<and>
          calls st' = calls example_service @
            map (\<lambda>s. CallScrobble s ''song'') (boundScrobblers example_service)"
    by blast
  moreover have "calls example_service = []"
    by (simp add: example_defs)
  moreover have "map (\<lambda>s. forwarded (scrobbler_scrobble (example_heap s) ''song'')) [0, 1, 2] =
      [result_ok, error_auth, result_ok]"
    by (simp add: example_defs forwarded_def)
  ultimately show ?thesis
    by (simp add: example_service_bound)
qed

subsection \<open>The results come in the order of the bound array\<close>

text \<open>
  Claim C10. The array a broadcast is fulfilled with is aligned with the bound array as
  it was when the broadcast was called: for every index \<open>i\<close>, entry \<open>i\<close> is what the
  \<open>i\<close>-th bound scrobbler fulfilled or rejected its request with. The schedule \<open>evs\<close> is
  arbitrary, so the order in which the requests complete plays no role.
\<close>

theorem broadcast_results_in_bound_order:
  assumes settle: "all_settle (length (boundScrobblers st)) evs"
    and i: "i < length (boundScrobblers st)"
  shows "(\<exists>st' rs. sendNowPlaying h song evs st = (st', Some rs) \<and>
            rs ! i = forwarded (scrobbler_sendNowPlaying (h (boundScrobblers st ! i)) song)) \<and>
         (\<exists>st' rs. scrobble h song evs st = (st', Some rs) \<and>
            rs ! i = forwarded (scrobbler_scrobble (h (boundScrobblers st ! i)) song)) \<and>
         (\<exists>st' rs. toggleLove h song flag evs st = (st', Some rs) \<and>
            rs ! i = forwarded (scrobbler_toggleLove (h (boundScrobblers st ! i)) song flag))"
proof (intro conjI)
  from sendNowPlaying_resolves[OF settle, of h song] obtain st' where
    "sendNowPlaying h song evs st =
      (st', Some (map (\<lambda>s. forwarded (scrobbler_sendNowPlaying (h s) song)) (boundScrobblers st)))"
    by blast
  moreover have "map (\<lambda>s. forwarded (scrobbler_sendNowPlaying (h s) song)) (boundScrobblers st) ! i =
      forwarded (scrobbler_sendNowPlaying (h (boundScrobblers st ! i)) song)"
    using i by simp
  ultimately show "\<exists>st' rs. sendNowPlaying h song evs st = (st', Some rs) \<and>
            rs ! i = forwarded (scrobbler_sendNowPlaying (h (boundScrobblers st ! i)) song)"
    by blast
next
  from scrobble_resolves[OF settle, of h song] obtain st' where
    "scrobble h song evs st =
      (st', Some (map (\<lambda>s. forwarded (scrobbler_scrobble (h s) song)) (boundScrobblers st)))"
    by blast
  moreover have "map (\<lambda>s. forwarded (scrobbler_scrobble (h s) song)) (boundScrobblers st) ! i =
      forwarded (scrobbler_scrobble (h (boundScrobblers st ! i)) song)"
    using i by simp
  ultimately show "\<exists>st' rs. scrobble h song evs st = (st', Some rs) \<and>
            rs ! i = forwarded (scrobbler_scrobble (h (boundScrobblers st ! i)) song)"
    by blast
next
  from toggleLove_resolves[OF settle, of h song flag] obtain st' where
    "toggleLove h song flag evs st =
      (st', Some (map (\<lambda>s. forwarded (scrobbler_toggleLove (h s) song flag)) (boundScrobblers st)))"
    by blast
  moreover have "map (\<lambda>s. forwarded (scrobbler_toggleLove (h s) song flag)) (boundScrobblers st) ! i =
      forwarded (scrobbler_toggleLove (h (boundScrobblers st ! i)) song flag)"
    using i by simp
  ultimately show "\<exists>st' rs. toggleLove h song flag evs st = (st', Some rs) \<and>
            rs ! i = forwarded (scrobbler_toggleLove (h (boundScrobblers st ! i)) song flag)"
    by blast
qed

theorem broadcast_results_in_bound_order_witness:
  "\<exists>st' rs. toggleLove example_heap ''song'' True [Settle 2, Settle 1, Settle 0] example_service =
            (st', Some rs) \<and> rs ! 1 = error_auth"
proof -
  have "all_settle (length (boundScrobblers example_service)) [Settle 2, Settle 1, Settle 0]"
    and "1 < length (boundScrobblers example_service)"
    by (simp_all add: example_service_bound all_settle_def upt_rec)
  from broadcast_results_in_bound_order[OF this, of example_heap "''song''" True]
  have "\<exists>st' rs. toggleLove example_heap ''song'' True [Settle 2, Settle 1, Settle 0]
            example_service = (st', Some rs) \<and>
          rs ! 1 = forwarded (scrobbler_toggleLove
                     (example_heap (boundScrobblers example_service ! 1)) ''song'' True)"
    by blast
  moreover have "forwarded (scrobbler_toggleLove
      (example_heap (boundScrobblers example_service ! 1)) ''song'' True) = error_auth"
    by (simp add: example_service_bound) (simp add: example_defs forwarded_def)
  ultimately show ?thesis by simp
qed

subsection \<open>When the unbind of a broadcast finds its scrobbler bound\<close>

text \<open>What the catch handler of a broadcast does to the service on an auth error is a
  call of \<^verbatim>\<open>unbindScrobbler\<close>.\<close>

lemma forward_result_is_unbind:
  "isAuthError e \<Longrightarrow>
   fst (catch (forward_result h s) (Rejected e) st) = api h (UnbindScrobbler s) st"
  by (simp add: catch_def forward_result_def)

text \<open>
  Claim C9 says that the unbind a broadcast performs after an auth error always removes
  the scrobbler and never takes the not-bound branch of \<^verbatim>\<open>unbindScrobbler\<close>. The
  schedule below is one where it does take that branch. Scrobblers 0, 1
  and 2 are bound and \<^verbatim>\<open>scrobble\<close> is called; before the promise of scrobbler 1
  settles, \<^verbatim>\<open>unbindScrobbler\<close> runs for scrobbler 1 (the host calls the exported
  function, or the catch handler of an overlapping broadcast runs for the same auth
  error, see \<open>forward_result_is_unbind\<close>). When the promise of scrobbler 1 then rejects
  with its auth error, the handler of this broadcast calls \<^verbatim>\<open>unbindScrobbler\<close> again
  and the not-bound branch writes \<^verbatim>\<open>LibreFM is not bound\<close> to \<^verbatim>\<open>console.error\<close>.
\<close>

theorem broadcast_unbind_not_bound_counterexample:
  "snd (scrobble example_heap ''song''
          [Interleaved (UnbindScrobbler 1), Settle 0, Settle 1, Settle 2] example_service) =
     Some [result_ok, error_auth, result_ok] \<and>
   filter is_error (console (fst (scrobble example_heap ''song''
          [Interleaved (UnbindScrobbler 1), Settle 0, Settle 1, Settle 2] example_service))) =
     [ConsoleError ''LibreFM is not bound'']"
  by (simp add: run_defs example_defs is_error_def)

text \<open>
  Claim C9, as the code has it. Take any broadcast and any schedule \<open>pre\<close> of events
  (promises of the broadcast settling in any order, interleaved calls of
  \<^verbatim>\<open>bindScrobbler\<close> and \<^verbatim>\<open>unbindScrobbler\<close>) in which the promise of the \<open>i\<close>-th
  scrobbler of the call has not settled yet. If that promise now rejects with an auth
  error and the scrobbler is still in the bound array at that moment, then the unbind
  of the handler removes it and does not take the not-bound branch: the object passed
  to \<^verbatim>\<open>unbindScrobbler\<close> is the very object stored in the array, so the guard on the
  label and the filter on the reference agree.
\<close>

theorem broadcast_unbind_succeeds_while_bound:
  assumes i: "i < length (boundScrobblers st)" and fresh: "Settle i \<notin> set pre"
  shows "(auth_rejected (scrobbler_sendNowPlaying (h (boundScrobblers st ! i)) song) \<and>
          boundScrobblers st ! i \<in> set (boundScrobblers (fst (sendNowPlaying h song pre st))) \<longrightarrow>
          removed_by_unbind h (boundScrobblers st ! i)
            (fst (sendNowPlaying h song pre st))
            (fst (sendNowPlaying h song (pre @ [Settle i]) st))) \<and>
         (auth_rejected (scrobbler_scrobble (h (boundScrobblers st ! i)) song) \<and>
          boundScrobblers st ! i \<in> set (boundScrobblers (fst (scrobble h song pre st))) \<longrightarrow>
          removed_by_unbind h (boundScrobblers st ! i)
            (fst (scrobble h song pre st))
            (fst (scrobble h song (pre @ [Settle i]) st))) \<and>
         (auth_rejected (scrobbler_toggleLove (h (boundScrobblers st ! i)) song flag) \<and>
          boundScrobblers st ! i \<in> set (boundScrobblers (fst (toggleLove h song flag pre st))) \<longrightarrow>
          removed_by_unbind h (boundScrobblers st ! i)
            (fst (toggleLove h song flag pre st))
            (fst (toggleLove h song flag (pre @ [Settle i]) st)))"
proof (intro conjI impI)
  assume "auth_rejected (scrobbler_sendNowPlaying (h (boundScrobblers st ! i)) song) \<and>
          boundScrobblers st ! i \<in> set (boundScrobblers (fst (sendNowPlaying h song pre st)))"
  then show "removed_by_unbind h (boundScrobblers st ! i)
            (fst (sendNowPlaying h song pre st))
            (fst (sendNowPlaying h song (pre @ [Settle i]) st))"
    unfolding sendNowPlaying_unfold
    using Promise_all_broadcast_unbind[OF i fresh,
        where m = "\<lambda>s. scrobbler_sendNowPlaying (h s) song" and h = h]
    by blast
next
  assume "auth_rejected (scrobbler_scrobble (h (boundScrobblers st ! i)) song) \<and>
          boundScrobblers st ! i \<in> set (boundScrobblers (fst (scrobble h song pre st)))"
  then show "removed_by_unbind h (boundScrobblers st ! i)
            (fst (scrobble h song pre st))
            (fst (scrobble h song (pre @ [Settle i]) st))"
    unfolding scrobble_unfold
    using Promise_all_broadcast_unbind[OF i fresh,
        where m = "\<lambda>s. scrobbler_scrobble (h s) song" and h = h]
    by blast
next
  assume "auth_rejected (scrobbler_toggleLove (h (boundScrobblers st ! i)) song flag) \<and>
          boundScrobblers st ! i \<in> set (boundScrobblers (fst (toggleLove h song flag pre st)))"
  then show "removed_by_unbind h (boundScrobblers st ! i)
            (fst (toggleLove h song flag pre st))
            (fst (toggleLove h song flag (pre @ [Settle i]) st))"
    unfolding toggleLove_unfold
    using Promise_all_broadcast_unbind[OF i fresh,
        where m = "\<lambda>s. scrobbler_toggleLove (h s) song flag" and h = h]
    by blast
qed


theorem broadcast_unbind_succeeds_while_bound_witness:
  "boundScrobblers (fst (scrobble example_heap ''song''
      [Interleaved (BindScrobbler 4), Settle 2, Interleaved (UnbindScrobbler 2)]
      example_service)) = [0, 1, 4] \<and>
   removed_by_unbind example_heap 1
     (fst (scrobble example_heap ''song''
        [Interleaved (BindScrobbler 4), Settle 2, Interleaved (UnbindScrobbler 2)]
        example_service))
     (fst (scrobble example_heap ''song''
        ([Interleaved (BindScrobbler 4), Settle 2, Interleaved (UnbindScrobbler 2)] @ [Settle 1])
        example_service))"
proof -
  let ?pre = "[Interleaved (BindScrobbler 4), Settle 2, Interleaved (UnbindScrobbler 2)]"
  have nth: "boundScrobblers example_service ! 1 = 1"
    by (simp add: example_service_bound)
  have b1: "boundScrobblers (fst (scrobble example_heap ''song'' ?pre example_service)) = [0, 1, 4]"
    by (simp add: run_defs example_defs)
  have i: "1 < length (boundScrobblers example_service)"
    by (simp add: example_service_bound)
  have fresh: "Settle 1 \<notin> set ?pre" by simp
  have auth: "auth_rejected
      (scrobbler_scrobble (example_heap (boundScrobblers example_service ! 1)) ''song'')"
    unfolding nth by (simp add: example_defs auth_rejected_def)
  have still: "boundScrobblers example_service ! 1 \<in>
      set (boundScrobblers (fst (scrobble example_heap ''song'' ?pre example_service)))"
    unfolding nth b1 by simp
  from broadcast_unbind_succeeds_while_bound[OF i fresh, of example_heap "''song''" True]
    auth still
  have "removed_by_unbind example_heap (boundScrobblers example_service ! 1)
     (fst (scrobble example_heap ''song'' ?pre example_service))
     (fst (scrobble example_heap ''song'' (?pre @ [Settle 1]) example_service))"
    by blast
  then show ?thesis unfolding nth using b1 by blast
qed

text \<open>
  A broadcast with no interleaved call, on a bound array that holds no object twice:
  every scrobbler is still bound when its promise settles, so when the broadcast is
  fulfilled the bound array is the array of the call without the scrobblers that
  rejected with an auth error, and nothing was written to \<^verbatim>\<open>console.error\<close>.
\<close>

lemma broadcast_alone_unbinds_every_auth_rejected:
  assumes dist: "distinct (boundScrobblers st)"
    and alone: "list_all is_settle evs"
    and settle: "all_settle (length (boundScrobblers st)) evs"
  shows "(\<exists>st' rs. sendNowPlaying h song evs st = (st', Some rs) \<and>
            boundScrobblers st' =
              filter (\<lambda>s. \<not> auth_rejected (scrobbler_sendNowPlaying (h s) song)) (boundScrobblers st) \<and>
            filter is_error (console st') = filter is_error (console st)) \<and>
         (\<exists>st' rs. scrobble h song evs st = (st', Some rs) \<and>
            boundScrobblers st' =
              filter (\<lambda>s. \<not> auth_rejected (scrobbler_scrobble (h s) song)) (boundScrobblers st) \<and>
            filter is_error (console st') = filter is_error (console st)) \<and>
         (\<exists>st' rs. toggleLove h song flag evs st = (st', Some rs) \<and>
            boundScrobblers st' =
              filter (\<lambda>s. \<not> auth_rejected (scrobbler_toggleLove (h s) song flag)) (boundScrobblers st) \<and>
            filter is_error (console st') = filter is_error (console st))"
proof (intro conjI)
  from sendNowPlaying_resolves[OF settle, of h song] obtain st' rs where
    run: "sendNowPlaying h song evs st = (st', Some rs)" by blast
  from sendNowPlaying_isolated[OF run dist alone] run
  show "\<exists>st' rs. sendNowPlaying h song evs st = (st', Some rs) \<and>
            boundScrobblers st' =
              filter (\<lambda>s. \<not> auth_rejected (scrobbler_sendNowPlaying (h s) song)) (boundScrobblers st) \<and>
            filter is_error (console st') = filter is_error (console st)"
    by blast
next
  from scrobble_resolves[OF settle, of h song] obtain st' rs where
    run: "scrobble h song evs st = (st', Some rs)" by blast
  from scrobble_isolated[OF run dist alone] run
  show "\<exists>st' rs. scrobble h song evs st = (st', Some rs) \<and>
            boundScrobblers st' =
              filter (\<lambda>s. \<not> auth_rejected (scrobbler_scrobble (h s) song)) (boundScrobblers st) \<and>
            filter is_error (console st') = filter is_error (console st)"
    by blast
next
  from toggleLove_resolves[OF settle, of h song flag] obtain st' rs where
    run: "toggleLove h song flag evs st = (st', Some rs)" by blast
  from toggleLove_isolated[OF run dist alone] run
  show "\<exists>st' rs. toggleLove h song flag evs st = (st', Some rs) \<and>
            boundScrobblers st' =
              filter (\<lambda>s. \<not> auth_rejected (scrobbler_toggleLove (h s) song flag)) (boundScrobblers st) \<and>
            filter is_error (console st') = filter is_error (console st)"
    by blast
qed

lemma broadcast_alone_unbinds_every_auth_rejected_example:
  "\<exists>st' rs. sendNowPlaying example_heap ''song'' [Settle 1, Settle 2, Settle 0] example_service =
            (st', Some rs) \<and>
          boundScrobblers st' = [0, 2] \<and>
          filter is_error (console st') = []"
proof -
  have "distinct (boundScrobblers example_service)"
    and "list_all is_settle [Settle 1, Settle 2, Settle 0]"
    and "all_settle (length (boundScrobblers example_service)) [Settle 1, Settle 2, Settle 0]"
    by (simp_all add: example_service_bound all_settle_def upt_rec)
  from broadcast_alone_unbinds_every_auth_rejected[OF this, of example_heap "''song''" True]
  have "\<exists>st' rs. sendNowPlaying example_heap ''song'' [Settle 1, Settle 2, Settle 0]
            example_service = (st', Some rs) \<and>
          boundScrobblers st' =
            filter (\<lambda>s. \<not> auth_rejected (scrobbler_sendNowPlaying (example_heap s) ''song''))
              (boundScrobblers example_service) \<and>
          filter is_error (console st') = filter is_error (console example_service)"
    by blast
  moreover have "filter (\<lambda>s. \<not> auth_rejected (scrobbler_sendNowPlaying (example_heap s) ''song''))
      [0, 1, 2] = [0, 2]"
    by (simp add: example_defs auth_rejected_def)
  moreover have "filter is_error (console example_service) = []"
    by (simp add: example_defs is_error_def)
  ultimately show ?thesis by (simp add: example_service_bound)
qed

subsection \<open>Unbinding a scrobbler that is not bound\<close>

text \<open>
  Claim C6. When no bound scrobbler has the label of \<open>p\<close>, \<^verbatim>\<open>unbindScrobbler(p)\<close>
  leaves the bound array as it is. The only effect is one line on \<^verbatim>\<open>console.error\<close>;
  the function has no \<^verbatim>\<open>throw\<close>, and its model is a total function onto states.
\<close>

theorem unbindScrobbler_not_bound_only_logs:
  assumes "\<not> isScrobblerInArray h p (boundScrobblers st)"
  shows "unbindScrobbler h p st =
           st\<lparr>console := console st @ [ConsoleError (getLabel (h p) @ '' is not bound'')]\<rparr> \<and>
         boundScrobblers (unbindScrobbler h p st) = boundScrobblers st"
  using assms by (simp add: unbindScrobbler_def console_error_def)

theorem unbindScrobbler_not_bound_only_logs_witness:
  "unbindScrobbler example_heap 4 example_service =
     example_service\<lparr>console := console example_service @ [ConsoleError ''Maloja is not bound'']\<rparr> \<and>
   boundScrobblers (unbindScrobbler example_heap 4 example_service) = [0, 1, 2]"
proof -
  have "\<not> isScrobblerInArray example_heap 4 (boundScrobblers example_service)"
    by (simp add: example_service_bound) (simp add: example_defs)
  from unbindScrobbler_not_bound_only_logs[OF this]
  show ?thesis by (simp add: example_service_bound) (simp add: example_defs)
qed

subsection \<open>Binding is idempotent\<close>

lemma one_entry_per_label:
  "distinct (labels h xs) \<Longrightarrow> l \<in> set (labels h xs) \<Longrightarrow>
   length (filter (\<lambda>s. getLabel (h s) = l) xs) = 1"
proof (induction xs)
  case Nil
  then show ?case by (simp add: labels_def)
next
  case (Cons x xs)
  show ?case
  proof (cases "getLabel (h x) = l")
    case True
    with Cons.prems(1) have "\<forall>s\<in>set xs. getLabel (h s) \<noteq> l"
      by (force simp: labels_def image_iff)
    then have "filter (\<lambda>s. getLabel (h s) = l) xs = []"
      by (simp add: filter_empty_conv)
    with True show ?thesis by simp
  next
    case False
    with Cons.prems have "distinct (labels h xs)" "l \<in> set (labels h xs)"
      by (auto simp: labels_def)
    with Cons.IH False show ?thesis by simp
  qed
qed

lemma labels_bind:
  "labels h (boundScrobblers (bindScrobbler h p st)) =
     (if getLabel (h p) \<in> set (labels h (boundScrobblers st)) then labels h (boundScrobblers st)
      else labels h (boundScrobblers st) @ [getLabel (h p)])"
  by (simp add: bindScrobbler_def isScrobblerInArray_iff console_log_def) (simp add: labels_def)

lemma bindScrobbler_distinct:
  "distinct (labels h (boundScrobblers st)) \<Longrightarrow>
   distinct (labels h (boundScrobblers (bindScrobbler h p st)))"
  by (simp add: labels_bind)

lemma bindScrobbler_bound:
  "isScrobblerInArray h p (boundScrobblers (bindScrobbler h p st))"
  by (simp add: isScrobblerInArray_iff labels_bind)

text \<open>
  Claim C5. Let the bound array hold no label twice, and let \<open>q\<close> have the label of \<open>p\<close>
  (\<open>q\<close> may be \<open>p\<close> itself or another object). After \<^verbatim>\<open>bindScrobbler(p)\<close> a call
  \<^verbatim>\<open>bindScrobbler(q)\<close> changes nothing, not even the console, and the bound array holds
  exactly one scrobbler with this label.
\<close>

theorem bindScrobbler_idempotent:
  assumes inv: "distinct (labels h (boundScrobblers st))"
    and same: "getLabel (h q) = getLabel (h p)"
  shows "bindScrobbler h q (bindScrobbler h p st) = bindScrobbler h p st \<and>
         length (filter (\<lambda>s. getLabel (h s) = getLabel (h p))
           (boundScrobblers (bindScrobbler h q (bindScrobbler h p st)))) = 1"
proof -
  have "isScrobblerInArray h q (boundScrobblers (bindScrobbler h p st))"
    using bindScrobbler_bound[of h p st] by (simp add: isScrobblerInArray_iff same)
  then have noop: "bindScrobbler h q (bindScrobbler h p st) = bindScrobbler h p st"
    by (simp add: bindScrobbler_def[of h q])
  have "distinct (labels h (boundScrobblers (bindScrobbler h p st)))"
    by (rule bindScrobbler_distinct[OF inv])
  moreover have "getLabel (h p) \<in> set (labels h (boundScrobblers (bindScrobbler h p st)))"
    using bindScrobbler_bound[of h p st] by (simp add: isScrobblerInArray_iff)
  ultimately have "length (filter (\<lambda>s. getLabel (h s) = getLabel (h p))
      (boundScrobblers (bindScrobbler h p st))) = 1"
    by (rule one_entry_per_label)
  with noop show ?thesis by simp
qed

theorem bindScrobbler_idempotent_witness:
  "bindScrobbler example_heap 3 (bindScrobbler example_heap 0 init_service) =
     bindScrobbler example_heap 0 init_service \<and>
   length (filter (\<lambda>s. getLabel (example_heap s) = ''LastFM'') (boundScrobblers
      (bindScrobbler example_heap 3 (bindScrobbler example_heap 0 init_service)))) = 1"
proof -
  have lbl: "getLabel (example_heap 0) = ''LastFM''"
    by (simp add: example_defs)
  have "distinct (labels example_heap (boundScrobblers init_service))"
    and "getLabel (example_heap 3) = getLabel (example_heap 0)"
    by (simp_all add: example_defs labels_def)
  from bindScrobbler_idempotent[OF this]
  show ?thesis unfolding lbl .
qed

subsection \<open>Authentication without an auth URL\<close>

text \<open>
  Claim C8. Let \<open>p\<close> not be bound and let the promise of \<^verbatim>\<open>getAuthUrl()\<close> be rejected.
  Whatever the flag \<open>notify\<close> is, after \<^verbatim>\<open>authenticateScrobbler(p, notify)\<close> and the
  turn of its handler the bound array is unchanged, so \<open>p\<close> is not bound; the calls that
  left the module are the request for the auth URL and one
  \<^verbatim>\<open>Notifications.showSignInError\<close> with the label and the status URL of \<open>p\<close>; and the
  failure is only logged. The model is a total function onto states: nothing is thrown.
\<close>

theorem authenticateScrobbler_no_auth_url:
  assumes unbound: "\<not> isScrobblerInArray h p (boundScrobblers st)"
    and fails: "getAuthUrl (h p) = Rejected r"
  shows "boundScrobblers (authenticateScrobbler h p notify st) = boundScrobblers st \<and>
         \<not> isScrobblerInArray h p (boundScrobblers (authenticateScrobbler h p notify st)) \<and>
         calls (authenticateScrobbler h p notify st) =
           calls st @ [CallGetAuthUrl p, ShowSignInError (getLabel (h p)) (getStatusUrl (h p))] \<and>
         console (authenticateScrobbler h p notify st) =
           console st @ [ConsoleLog (''Unable to get auth URL for '' @ getLabel (h p))]"
  using assms
  by (simp add: authenticateScrobbler_def then_catch_def ext_def console_log_def Let_def)

theorem authenticateScrobbler_no_auth_url_witness:
  "boundScrobblers (authenticateScrobbler example_heap 1 False init_service) = [] \<and>
   calls (authenticateScrobbler example_heap 1 False init_service) =
     [CallGetAuthUrl 1, ShowSignInError ''LibreFM'' ''https://status.example/LibreFM''] \<and>
   console (authenticateScrobbler example_heap 1 False init_service) =
     [ConsoleLog ''Unable to get auth URL for LibreFM'']"
proof -
  have init: "boundScrobblers init_service = []" "calls init_service = []"
      "console init_service = []"
    by (simp_all add: init_service_def)
  have obj: "getLabel (example_heap 1) = ''LibreFM''"
      "getStatusUrl (example_heap 1) = ''https://status.example/LibreFM''"
    by (simp_all add: example_defs)
  have "\<not> isScrobblerInArray example_heap 1 (boundScrobblers init_service)"
    and "getAuthUrl (example_heap 1) = Rejected ''no session''"
    by (simp_all add: example_defs)
  from authenticateScrobbler_no_auth_url[OF this, of False]
  show ?thesis unfolding init obj by simp
qed

subsection \<open>Unbinding through another object with the same label\<close>

text \<open>
  Claim C2 says that \<^verbatim>\<open>unbindScrobbler(p)\<close> removes the bound scrobbler that has the
  label of \<open>p\<close>, also when \<open>p\<close> is another object. The guard of \<^verbatim>\<open>unbindScrobbler\<close>
  compares labels, but its filter compares objects. Objects 0 and 3 both have the label
  \<^verbatim>\<open>LastFM\<close>. With object 0 bound, \<^verbatim>\<open>unbindScrobbler\<close> of object 3 passes the guard,
  removes nothing and logs \<^verbatim>\<open>Unbind LastFM scrobbler\<close>: object 0 is still bound.
\<close>

theorem unbindScrobbler_other_handle_not_removed:
  "getLabel (example_heap 3) = getLabel (example_heap 0) \<and>
   boundScrobblers (bindScrobbler example_heap 0 init_service) = [0] \<and>
   isScrobblerInArray example_heap 3 (boundScrobblers (bindScrobbler example_heap 0 init_service)) \<and>
   boundScrobblers (unbindScrobbler example_heap 3 (bindScrobbler example_heap 0 init_service)) = [0] \<and>
   console (unbindScrobbler example_heap 3 (bindScrobbler example_heap 0 init_service)) =
     [ConsoleLog ''Bind LastFM scrobbler'', ConsoleLog ''Unbind LastFM scrobbler'']"
  by (simp add: example_defs)

subsection \<open>Registering a batch keeps one scrobbler per label\<close>

lemma registerScrobblers_map_promises:
  "snd (registerScrobblers_map h xs st) =
     map (\<lambda>scrobbler. then_catch
            (\<lambda>_ s. (bindScrobbler h scrobbler s, ()))
            (\<lambda>_ s. (console_warn (''Unable to bind '' @ getLabel (h scrobbler)) s, ()))
            (getSession (h scrobbler))) xs"
  by (induction xs arbitrary: st) (simp_all add: Let_def split_beta)

lemma registered_registerScrobbler:
  "registeredScrobblers (registerScrobbler h x st) =
     (if getLabel (h x) \<in> set (labels h (registeredScrobblers st)) then registeredScrobblers st
      else registeredScrobblers st @ [x])"
  by (simp add: registerScrobbler_def isScrobblerInArray_iff console_log_def)

lemma registerScrobblers_map_registered:
  assumes "distinct (labels h (registeredScrobblers st))"
  shows "distinct (labels h (registeredScrobblers (fst (registerScrobblers_map h xs st)))) \<and>
         set (labels h (registeredScrobblers (fst (registerScrobblers_map h xs st)))) =
           set (labels h (registeredScrobblers st)) \<union> set (labels h xs) \<and>
         (\<exists>new. registeredScrobblers (fst (registerScrobblers_map h xs st)) =
                  registeredScrobblers st @ new \<and> set new \<subseteq> set xs)"
  using assms
proof (induction xs arbitrary: st)
  case Nil
  then show ?case by (simp add: labels_def)
next
  case (Cons x xs)
  let ?st1 = "ext (CallGetSession x) (registerScrobbler h x st)"
  have reg1: "registeredScrobblers ?st1 =
     (if getLabel (h x) \<in> set (labels h (registeredScrobblers st)) then registeredScrobblers st
      else registeredScrobblers st @ [x])"
    by (simp add: ext_def registered_registerScrobbler)
  have fst_eq: "fst (registerScrobblers_map h (x # xs) st) = fst (registerScrobblers_map h xs ?st1)"
    by (simp add: Let_def split_beta)
  have d1: "distinct (labels h (registeredScrobblers ?st1))"
    using Cons.prems unfolding reg1 by (simp add: labels_def)
  have l1: "set (labels h (registeredScrobblers ?st1)) =
      insert (getLabel (h x)) (set (labels h (registeredScrobblers st)))"
    unfolding reg1 by (auto simp: labels_def)
  from Cons.IH[OF d1] obtain new where
    d: "distinct (labels h (registeredScrobblers (fst (registerScrobblers_map h xs ?st1))))"
    and l: "set (labels h (registeredScrobblers (fst (registerScrobblers_map h xs ?st1)))) =
           set (labels h (registeredScrobblers ?st1)) \<union> set (labels h xs)"
    and n: "registeredScrobblers (fst (registerScrobblers_map h xs ?st1)) =
                  registeredScrobblers ?st1 @ new" "set new \<subseteq> set xs"
    by blast
  have "\<exists>new'. registeredScrobblers (fst (registerScrobblers_map h xs ?st1)) =
                  registeredScrobblers st @ new' \<and> set new' \<subseteq> set (x # xs)"
  proof (cases "getLabel (h x) \<in> set (labels h (registeredScrobblers st))")
    case True
    with n reg1 show ?thesis by (intro exI[of _ new]) auto
  next
    case False
    with n reg1 show ?thesis by (intro exI[of _ "x # new"]) auto
  qed
  moreover have "set (labels h (registeredScrobblers (fst (registerScrobblers_map h xs ?st1)))) =
      set (labels h (registeredScrobblers st)) \<union> set (labels h (x # xs))"
    unfolding l l1 by (auto simp: labels_def)
  ultimately show ?case unfolding fst_eq using d by blast
qed

lemma registered_bindScrobbler:
  "registeredScrobblers (bindScrobbler h x s) = registeredScrobblers s"
  by (simp add: bindScrobbler_def console_log_def)

lemma registerScrobblers_resolves:
  assumes settle: "all_settle (length xs) evs"
  shows "\<exists>st'. registerScrobblers h xs evs st = (st', Some (boundScrobblers st')) \<and>
           registeredScrobblers st' = registeredScrobblers (fst (registerScrobblers_map h xs st))"
proof -
  let ?ps = "map (\<lambda>scrobbler. then_catch
            (\<lambda>_ s. (bindScrobbler h scrobbler s, ()))
            (\<lambda>_ s. (console_warn (''Unable to bind '' @ getLabel (h scrobbler)) s, ()))
            (getSession (h scrobbler))) xs"
  let ?st1 = "fst (registerScrobblers_map h xs st)"
  have ps: "snd (registerScrobblers_map h xs st) = ?ps"
    by (rule registerScrobblers_map_promises)
  have "all_settle (length ?ps) evs" using settle by simp
  from Promise_all_resolves[OF this, of "replicate (length xs) ()" h ?st1]
  obtain st' where run: "Promise_all h ?ps evs ?st1 = (st', Some (replicate (length xs) ()))"
    by auto
  have "registeredScrobblers st' = registeredScrobblers ?st1"
  proof (rule await_all_frame[OF run[unfolded Promise_all_def]])
    fix i and s :: service
    assume "i < length ?ps"
    then show "registeredScrobblers (fst ((?ps ! i) s)) = registeredScrobblers s"
      by (simp add: then_catch_def registered_bindScrobbler console_warn_def
          split: promise.splits)
  next
    fix c and s :: service
    show "registeredScrobblers (api h c s) = registeredScrobblers s"
      by (rule api_registered)
  qed
  moreover have "registerScrobblers h xs evs st = (st', Some (boundScrobblers st'))"
    unfolding registerScrobblers_def split_beta ps run by simp
  ultimately show ?thesis by blast
qed

text \<open>
  Claim C3. Let the registered array hold no label twice (it is empty at first and only
  \<^verbatim>\<open>registerScrobbler\<close> adds to it). For every array of scrobblers, also one with
  several objects of one label or with labels registered before, and every schedule in
  which the session promises settle, \<^verbatim>\<open>registerScrobblers\<close> is fulfilled, and then
  the registered array holds exactly one scrobbler for each label that was registered
  before or is in the array passed, and none for any other label. What was registered
  stays in place; what is added comes from the array passed, and an object whose label
  is registered already is skipped.
\<close>

theorem registerScrobblers_one_entry_per_label:
  assumes inv: "distinct (labels h (registeredScrobblers st))"
    and settle: "all_settle (length scrobblers) evs"
  shows "\<exists>st'. registerScrobblers h scrobblers evs st = (st', Some (boundScrobblers st')) \<and>
           (\<forall>l. length (filter (\<lambda>s. getLabel (h s) = l) (registeredScrobblers st')) =
                  (if l \<in> set (labels h (registeredScrobblers st)) \<union> set (labels h scrobblers)
                   then 1 else 0)) \<and>
           (\<exists>new. registeredScrobblers st' = registeredScrobblers st @ new \<and>
                   set new \<subseteq> set scrobblers)"
proof -
  from registerScrobblers_resolves[OF settle, of h st] obtain st' where
    run: "registerScrobblers h scrobblers evs st = (st', Some (boundScrobblers st'))"
    and reg: "registeredScrobblers st' =
        registeredScrobblers (fst (registerScrobblers_map h scrobblers st))"
    by blast
  from registerScrobblers_map_registered[OF inv, of scrobblers]
  have d: "distinct (labels h (registeredScrobblers st'))"
    and l: "set (labels h (registeredScrobblers st')) =
           set (labels h (registeredScrobblers st)) \<union> set (labels h scrobblers)"
    and n: "\<exists>new. registeredScrobblers st' = registeredScrobblers st @ new \<and>
                   set new \<subseteq> set scrobblers"
    unfolding reg by blast+
  have "length (filter (\<lambda>s. getLabel (h s) = l) (registeredScrobblers st')) =
          (if l \<in> set (labels h (registeredScrobblers st)) \<union> set (labels h scrobblers)
           then 1 else 0)" for l
  proof (cases "l \<in> set (labels h (registeredScrobblers st'))")
    case True
    with one_entry_per_label[OF d True] l show ?thesis by simp
  next
    case False
    then have "filter (\<lambda>s. getLabel (h s) = l) (registeredScrobblers st') = []"
      by (auto simp: filter_empty_conv labels_def)
    with False l show ?thesis by simp
  qed
  with run n show ?thesis by blast
qed

theorem registerScrobblers_one_entry_per_label_witness:
  "\<exists>st'. registerScrobblers example_heap [0, 1, 0, 4] [Settle 3, Settle 1, Settle 0, Settle 2]
            (registerScrobbler example_heap 3 init_service) = (st', Some (boundScrobblers st')) \<and>
         length (filter (\<lambda>s. getLabel (example_heap s) = ''LastFM'') (registeredScrobblers st')) = 1"
proof -
  have reg: "registeredScrobblers (registerScrobbler example_heap 3 init_service) = [3]"
    by (simp add: registerScrobbler_def example_defs)
  have lbl: "labels example_heap [3] = [''LastFM'']"
    by (simp add: labels_def example_defs)
  have "distinct (labels example_heap
          (registeredScrobblers (registerScrobbler example_heap 3 init_service)))"
    unfolding reg lbl by simp
  moreover have "all_settle (length [0::nat, 1, 0, 4]) [Settle 3, Settle 1, Settle 0, Settle 2]"
    by (simp add: all_settle_def upt_rec)
  ultimately obtain st' where
    run: "registerScrobblers example_heap [0, 1, 0, 4] [Settle 3, Settle 1, Settle 0, Settle 2]
            (registerScrobbler example_heap 3 init_service) = (st', Some (boundScrobblers st'))"
    and one: "\<forall>l. length (filter (\<lambda>s. getLabel (example_heap s) = l) (registeredScrobblers st')) =
        (if l \<in> set (labels example_heap
                   (registeredScrobblers (registerScrobbler example_heap 3 init_service))) \<union>
                 set (labels example_heap [0, 1, 0, 4])
         then 1 else 0)"
    using registerScrobblers_one_entry_per_label[of example_heap
        "registerScrobbler example_heap 3 init_service" "[0, 1, 0, 4]"
        "[Settle 3, Settle 1, Settle 0, Settle 2]"]
    by blast
  from one have "length (filter (\<lambda>s. getLabel (example_heap s) = ''LastFM'')
      (registeredScrobblers st')) = 1"
    unfolding reg lbl by simp
  with run show ?thesis by blast
qed

end
